theory Spec2Isabelle
  imports Complex_Main "HOL-Library.Log_Nat"
begin

section \<open>Strings and paths\<close>

text \<open>
  Go strings are byte sequences, modelled as \<open>string\<close> (a list of 8-bit characters).
  The helpers of the Go standard library that the program calls (\<open>strings.ToLower\<close>,
  \<open>strings.TrimSuffix\<close>, \<open>filepath.Ext\<close>, \<open>filepath.Base\<close>, \<open>filepath.Clean\<close>,
  \<open>filepath.Join\<close>) are written out for a Unix target, where the separator is \<open>/\<close> and
  there is no volume name.
\<close>

definition isASCII :: "string \<Rightarrow> bool" where
  "isASCII s = (\<forall>c \<in> set s. (of_char c :: nat) < 128)"

definition toLowerByte :: "char \<Rightarrow> char" where
  "toLowerByte c =
     (let n = (of_char c :: nat) in if 65 \<le> n \<and> n \<le> 90 then char_of (n + 32) else c)"

text \<open>
  \<open>strings.ToLower\<close>: on a string of ASCII bytes every byte in \<open>A..Z\<close> is moved to
  \<open>a..z\<close>; a string with a byte outside ASCII is mapped rune by rune through the Unicode
  tables, which are taken as the parameter \<open>ul\<close>.
\<close>

definition ToLower :: "(string \<Rightarrow> string) \<Rightarrow> string \<Rightarrow> string" where
  "ToLower ul s = (if isASCII s then map toLowerByte s else ul s)"

text \<open>
  \<open>filepath.Ext\<close> scans from the last byte backwards: it stops with the empty string at a
  separator and returns the suffix starting at the first dot it meets.
\<close>

fun extScan :: "string \<Rightarrow> string \<Rightarrow> string" where
  "extScan [] acc = []"
| "extScan (c # cs) acc =
     (if c = CHR ''/'' then []
      else if c = CHR ''.'' then c # acc
      else extScan cs (c # acc))"

definition Ext :: "string \<Rightarrow> string" where
  "Ext path = extScan (rev path) []"

text \<open>
  \<open>filepath.Base\<close>: the last element of the path, after trailing separators are removed;
  \<open>.\<close> for the empty path and \<open>/\<close> for a path of separators only.
\<close>

definition Base :: "string \<Rightarrow> string" where
  "Base path =
     (if path = [] then ''.''
      else let p = dropWhile (\<lambda>c. c = CHR ''/'') (rev path);
               e = rev (takeWhile (\<lambda>c. c \<noteq> CHR ''/'') p)
           in if e = [] then ''/'' else e)"

definition HasSuffix :: "string \<Rightarrow> string \<Rightarrow> bool" where
  "HasSuffix s suffix =
     (length suffix \<le> length s \<and> drop (length s - length suffix) s = suffix)"

definition TrimSuffix :: "string \<Rightarrow> string \<Rightarrow> string" where
  "TrimSuffix s suffix =
     (if HasSuffix s suffix then take (length s - length suffix) s else s)"

text \<open>
  \<open>filepath.Clean\<close> works on the elements between separators: empty elements and \<open>.\<close>
  are dropped, \<open>..\<close> removes the element before it when there is one to remove, is
  dropped at the root and is kept at the front of a relative path. The result of an
  empty relative path is \<open>.\<close>.
\<close>

fun splitSep :: "string \<Rightarrow> string \<Rightarrow> string list" where
  "splitSep [] cur = [rev cur]"
| "splitSep (c # cs) cur =
     (if c = CHR ''/'' then rev cur # splitSep cs [] else splitSep cs (c # cur))"

definition cleanStep :: "bool \<Rightarrow> string list \<Rightarrow> string \<Rightarrow> string list" where
  "cleanStep rooted out e =
     (if e = [] \<or> e = ''.'' then out
      else if e = ''..'' then
        (if out \<noteq> [] \<and> last out \<noteq> ''..'' then butlast out
         else if \<not> rooted then out @ [e]
         else out)
      else out @ [e])"

fun joinSep :: "string list \<Rightarrow> string" where
  "joinSep [] = []"
| "joinSep [e] = e"
| "joinSep (e # es) = e @ CHR ''/'' # joinSep es"

definition Clean :: "string \<Rightarrow> string" where
  "Clean path =
     (if path = [] then ''.''
      else let rooted = (hd path = CHR ''/'');
               out = foldl (cleanStep rooted) [] (splitSep path [])
           in if rooted then CHR ''/'' # joinSep out
              else if out = [] then ''.'' else joinSep out)"

text \<open>
  \<open>filepath.Join\<close> of two elements: empty leading elements are ignored, the rest is
  joined with separators and cleaned; the join of empty elements is empty.
\<close>

definition Join :: "string \<Rightarrow> string \<Rightarrow> string" where
  "Join a b =
     (if a \<noteq> [] then Clean (a @ CHR ''/'' # b)
      else if b \<noteq> [] then Clean b
      else [])"

section \<open>Floating point\<close>

text \<open>
  The resize computation is done on \<open>float64\<close>. A finite double is modelled by the
  rational it denotes; every operation computes the exact result and rounds it to the
  nearest number with a 53-bit significand, ties to even. The operands of this program
  come from 64-bit integers, so that the exponent range of the format is never left.
  The sign of a zero is not kept: the program never divides by a computed zero.
\<close>

datatype f64 = Fin rat | PInf | NInf | NaN

definition pow2 :: "int \<Rightarrow> rat" where
  "pow2 e = (if 0 \<le> e then 2 ^ nat e else 1 / 2 ^ nat (- e))"

text \<open>For \<open>0 < x\<close>, the exponent \<open>e\<close> with \<open>2\<^sup>e \<le> x < 2\<^sup>e\<^sup>+\<^sup>1\<close>.\<close>

definition floorLog2 :: "rat \<Rightarrow> int" where
  "floorLog2 x = (if 1 \<le> x then bitlen \<lfloor>x\<rfloor> - 1 else - bitlen (\<lceil>1 / x\<rceil> - 1))"

definition roundHalfEven :: "rat \<Rightarrow> int" where
  "roundHalfEven x =
     (let f = \<lfloor>x\<rfloor>; d = x - of_int f
      in if d < 1 / 2 then f
         else if 1 / 2 < d then f + 1
         else if even f then f else f + 1)"

definition roundPos :: "rat \<Rightarrow> rat" where
  "roundPos x = (let u = pow2 (floorLog2 x - 52) in of_int (roundHalfEven (x / u)) * u)"

definition round64 :: "rat \<Rightarrow> rat" where
  "round64 x = (if x = 0 then 0 else if x < 0 then - roundPos (- x) else roundPos x)"

text \<open>The conversion \<open>float64(n)\<close> of an integer is always finite.\<close>

definition float64 :: "int \<Rightarrow> rat" where
  "float64 n = round64 (of_int n)"

text \<open>Division of two finite doubles.\<close>

definition fdiv :: "rat \<Rightarrow> rat \<Rightarrow> f64" where
  "fdiv a b =
     (if b \<noteq> 0 then Fin (round64 (a / b))
      else if 0 < a then PInf else if a < 0 then NInf else NaN)"

text \<open>Product of a finite double and a double.\<close>

fun fmul :: "rat \<Rightarrow> f64 \<Rightarrow> f64" where
  "fmul a (Fin b) = Fin (round64 (a * b))"
| "fmul a PInf = (if 0 < a then PInf else if a < 0 then NInf else NaN)"
| "fmul a NInf = (if 0 < a then NInf else if a < 0 then PInf else NaN)"
| "fmul a NaN = NaN"

text \<open>The comparison \<open>x < y\<close>: false as soon as one side is not a number.\<close>

fun flt :: "f64 \<Rightarrow> f64 \<Rightarrow> bool" where
  "flt (Fin a) (Fin b) = (a < b)"
| "flt (Fin a) PInf = True"
| "flt NInf (Fin b) = True"
| "flt NInf PInf = True"
| "flt x y = False"

text \<open>
  The conversion \<open>int(x)\<close> truncates towards zero. Where the value has no 64-bit
  representation the language leaves the result to the implementation: it is the
  parameter \<open>indef\<close>.
\<close>

definition truncToZero :: "rat \<Rightarrow> int" where
  "truncToZero r = (if 0 \<le> r then \<lfloor>r\<rfloor> else \<lceil>r\<rceil>)"

fun toInt :: "(f64 \<Rightarrow> int) \<Rightarrow> f64 \<Rightarrow> int" where
  "toInt indef (Fin r) =
     (if - (2 ^ 63) \<le> truncToZero r \<and> truncToZero r < 2 ^ 63 then truncToZero r else indef (Fin r))"
| "toInt indef x = indef x"

section \<open>The processor package\<close>

datatype error =
    ErrFormat string
  | ErrInputDir string
  | ErrQuality int
  | ErrDimensions int int
  | ErrWorkers int
  | ErrExternal string

record Config =
  OutputFormat :: string
  MaxWidth :: int
  MaxHeight :: int
  Quality :: int
  OutputDir :: string

text \<open>
  An \<open>image.Image\<close> is its bounding rectangle and its pixel content, which stays
  abstract. The type \<open>int\<close> of Go is modelled by the integers: the coordinates of an
  image and the flags of the command are far from the ends of the 64-bit range, and the
  only place where the range matters, the conversion from \<open>float64\<close>, is written out.
\<close>

record 'p image =
  MinX :: int
  MinY :: int
  MaxX :: int
  MaxY :: int
  Pix :: 'p

text \<open>What an encoder is asked to write: \<open>jpeg.Encode\<close> takes a quality, the PNG encoder none.\<close>

datatype 'p encoded = Jpeg "'p image" int | Png "'p image"

text \<open>
  What \<open>filepath.Walk\<close> finds at a path. \<open>File\<close> is anything \<open>os.Lstat\<close> does not report
  as a directory; a directory holds its entries in the order in which they are visited (the
  sorted names), each with what is found there; \<open>Unreadable\<close> is a directory whose names
  cannot be read and \<open>Absent\<close> an entry on which \<open>os.Lstat\<close> fails.
\<close>

datatype fsnode =
    File
  | Dir "(string \<times> fsnode) list"
  | Unreadable error
  | Absent error

text \<open>
  The result of \<open>os.Stat\<close>, as far as \<open>validateInputs\<close> looks at it: no error, an error
  that \<open>os.IsNotExist\<close> accepts, any other error.
\<close>

datatype stat = StatOk | StatNotExist | StatOther

text \<open>
  The collaborators outside the repository: the decoders, the resampling of
  \<open>imaging.Resize\<close>, file creation and the failures of the two encoders, the Unicode part
  of \<open>strings.ToLower\<close>, the implementation-dependent integer conversion, and the file
  system as the command sees it.
\<close>

record 'p extern =
  unicodeLower :: "string \<Rightarrow> string"
  intIndef :: "f64 \<Rightarrow> int"
  osStat :: "string \<Rightarrow> stat"
  osMkdirAll :: "string \<Rightarrow> error option"
  fileTree :: "string \<Rightarrow> fsnode"
  imagingOpen :: "string \<Rightarrow> error + 'p image"
  heifDecode :: "string \<Rightarrow> error + 'p image"
  imagingResize :: "'p image \<Rightarrow> int \<Rightarrow> int \<Rightarrow> 'p image"
  osCreate :: "string \<Rightarrow> error option"
  jpegEncode :: "'p image \<Rightarrow> int \<Rightarrow> error option"
  pngEncode :: "'p image \<Rightarrow> error option"

text \<open>
  \<open>loadImage\<close>: the HEIC/HEIF branch opens the file and runs the four steps of the
  libheif binding, each of which may fail; they are the one call \<open>heifDecode\<close>.
\<close>

definition loadImage :: "'p extern \<Rightarrow> string \<Rightarrow> error + 'p image" where
  "loadImage x path =
     (let ext = Ext (ToLower (unicodeLower x) path)
      in if ext = ''.heic'' \<or> ext = ''.heif'' then heifDecode x path
         else imagingOpen x path)"

text \<open>
  The geometry of \<open>resizeImage\<close>: the two arguments it passes to \<open>imaging.Resize\<close>.
\<close>

definition scaledSize :: "(f64 \<Rightarrow> int) \<Rightarrow> int \<Rightarrow> int \<Rightarrow> int \<Rightarrow> int \<Rightarrow> int \<times> int" where
  "scaledSize indef width height maxWidth maxHeight =
     (let widthScale = fdiv (float64 maxWidth) (float64 width);
          heightScale = fdiv (float64 maxHeight) (float64 height);
          scale = (if flt widthScale heightScale then widthScale else heightScale);
          newWidth = toInt indef (fmul (float64 width) scale);
          newHeight = toInt indef (fmul (float64 height) scale)
      in (newWidth, newHeight))"

definition resizeImage :: "'p extern \<Rightarrow> 'p image \<Rightarrow> int \<Rightarrow> int \<Rightarrow> 'p image" where
  "resizeImage x img maxWidth maxHeight =
     (let width = MaxX img - MinX img;
          height = MaxY img - MinY img
      in if width \<le> maxWidth \<and> height \<le> maxHeight then img
         else case scaledSize (intIndef x) width height maxWidth maxHeight of
                (newWidth, newHeight) \<Rightarrow> imagingResize x img newWidth newHeight)"

definition generateOutputPath :: "string \<Rightarrow> string \<Rightarrow> string \<Rightarrow> string" where
  "generateOutputPath inputPath outputDir format =
     (let filename = Base inputPath;
          ext = Ext filename;
          name = TrimSuffix filename ext;
          newExt = (if format = ''jpg'' then ''.jpg''
                    else if format = ''png'' then ''.png''
                    else ''.jpg'')
      in Join outputDir (name @ newExt))"

definition generateOutputPathWithSameFormat :: "string \<Rightarrow> string \<Rightarrow> string" where
  "generateOutputPathWithSameFormat inputPath outputDir =
     (let filename = Base inputPath in Join outputDir filename)"

text \<open>
  \<open>saveImage\<close> returns the error of \<open>os.Create\<close> or of the encoder; on success the
  result is the path written and what was encoded there.
\<close>

definition encodeTo :: "'p extern \<Rightarrow> string \<Rightarrow> 'p encoded \<Rightarrow> error + string \<times> 'p encoded" where
  "encodeTo x path data =
     (case (case data of Jpeg img q \<Rightarrow> jpegEncode x img q | Png img \<Rightarrow> pngEncode x img) of
        Some e \<Rightarrow> Inl e
      | None \<Rightarrow> Inr (path, data))"

definition saveImage ::
  "'p extern \<Rightarrow> 'p image \<Rightarrow> string \<Rightarrow> string \<Rightarrow> int \<Rightarrow> error + string \<times> 'p encoded" where
  "saveImage x img path format quality =
     (case osCreate x path of
        Some e \<Rightarrow> Inl e
      | None \<Rightarrow>
          (if format = ''jpg'' then encodeTo x path (Jpeg img quality)
           else if format = ''png'' then encodeTo x path (Png img)
           else encodeTo x path (Jpeg img quality)))"

definition ProcessImage :: "'p extern \<Rightarrow> string \<Rightarrow> Config \<Rightarrow> error + string \<times> 'p encoded" where
  "ProcessImage x inputPath config =
     (case loadImage x inputPath of
        Inl e \<Rightarrow> Inl e
      | Inr img \<Rightarrow>
          (let img' = resizeImage x img (MaxWidth config) (MaxHeight config);
               outputPath = generateOutputPath inputPath (OutputDir config) (OutputFormat config)
           in saveImage x img' outputPath (OutputFormat config) (Quality config)))"

definition ProcessImageWithSameFormat ::
  "'p extern \<Rightarrow> string \<Rightarrow> Config \<Rightarrow> error + string \<times> 'p encoded" where
  "ProcessImageWithSameFormat x inputPath config =
     (case loadImage x inputPath of
        Inl e \<Rightarrow> Inl e
      | Inr img \<Rightarrow>
          (let img' = resizeImage x img (MaxWidth config) (MaxHeight config);
               outputPath = generateOutputPathWithSameFormat inputPath (OutputDir config);
               ext = Ext (ToLower (unicodeLower x) inputPath);
               format = (if ext = ''.png'' then ''png'' else ''jpg'')
           in saveImage x img' outputPath format (Quality config)))"

section \<open>The command\<close>

text \<open>
  The flag variables of the command. \<open>workers\<close> is declared with its flag outside the
  files at hand; it is read by \<open>validateInputs\<close> and sizes the semaphore.
\<close>

record flags =
  inputDir :: string
  outputDir :: string
  outputFormat :: string
  maxWidth :: int
  maxHeight :: int
  quality :: int
  recursive :: bool
  workers :: int


subsection \<open>Discovery\<close>

text \<open>
  \<open>filepath.Walk\<close> calls the walk function with the path, whether the entry is a
  directory, and an error. A directory's names are read before the function is called for
  it; the function is called with the error when they cannot be read. The result
  \<open>SkipDir\<close> for a directory skips its entries, for a file it skips the rest of the
  directory that holds the file, and at the top it is no error. The paths of the entries
  are built with \<open>filepath.Join\<close>. The state that the closure updates is passed along.
  The result \<open>SkipAll\<close> is left out: the walk function of this program never returns it.
\<close>

datatype walkErr = SkipDir | WalkErr error

type_synonym 's walkFn = "'s \<Rightarrow> string \<Rightarrow> bool \<Rightarrow> error option \<Rightarrow> 's \<times> walkErr option"

fun isDirNode :: "fsnode \<Rightarrow> bool" where
  "isDirNode (Dir es) = True"
| "isDirNode (Unreadable e) = True"
| "isDirNode n = False"

function walk :: "'s walkFn \<Rightarrow> string \<Rightarrow> fsnode \<Rightarrow> 's \<Rightarrow> 's \<times> walkErr option"
  and walkNames :: "'s walkFn \<Rightarrow> string \<Rightarrow> (string \<times> fsnode) list \<Rightarrow> 's \<Rightarrow> 's \<times> walkErr option"
where
  "walk fn path File s = fn s path False None"
| "walk fn path (Unreadable e) s = fn s path True (Some e)"
| "walk fn path (Absent e) s = fn s path False (Some e)"
| "walk fn path (Dir es) s =
     (case fn s path True None of
        (s', None) \<Rightarrow> walkNames fn path es s'
      | (s', Some err1) \<Rightarrow> (s', Some err1))"
| "walkNames fn path [] s = (s, None)"
| "walkNames fn path ((name, node) # es) s =
     (let filename = Join path name
      in case node of
           Absent e \<Rightarrow>
             (case fn s filename False (Some e) of
                (s', Some (WalkErr e')) \<Rightarrow> (s', Some (WalkErr e'))
              | (s', _) \<Rightarrow> walkNames fn path es s')
         | _ \<Rightarrow>
             (case walk fn filename node s of
                (s', None) \<Rightarrow> walkNames fn path es s'
              | (s', Some SkipDir) \<Rightarrow>
                  if isDirNode node then walkNames fn path es s' else (s', Some SkipDir)
              | (s', Some (WalkErr e')) \<Rightarrow> (s', Some (WalkErr e'))))"
  by pat_completeness auto
termination
  by (relation "measure (\<lambda>a. case a of
        Inl (fn, path, node, s) \<Rightarrow> size node
      | Inr (fn, path, es, s) \<Rightarrow> size_list (size_prod (\<lambda>_. 0) size) es)") auto

definition Walk :: "'s walkFn \<Rightarrow> string \<Rightarrow> fsnode \<Rightarrow> 's \<Rightarrow> 's \<times> walkErr option" where
  "Walk fn rootPath node s =
     (case walk fn rootPath node s of
        (s', Some SkipDir) \<Rightarrow> (s', None)
      | r \<Rightarrow> r)"

text \<open>
  The walk function of \<open>getImageFiles\<close>: it appends to \<open>files\<close>. With an error it never
  looks at the file information, so that the absent information of a failed
  \<open>os.Lstat\<close> is passed as \<open>False\<close>. A key that is missing from the map \<open>exts\<close> reads as
  \<open>false\<close>.
\<close>

definition exts :: "string \<rightharpoonup> bool" where
  "exts = map_of
     [(''.heic'', True), (''.heif'', True), (''.jpg'', True), (''.jpeg'', True),
      (''.png'', True), (''.bmp'', True), (''.tiff'', True), (''.tif'', True)]"

definition walkFunc :: "'p extern \<Rightarrow> string \<Rightarrow> bool \<Rightarrow> string list walkFn" where
  "walkFunc x dir rec files path isDir err =
     (case err of
        Some e \<Rightarrow> (files, Some (WalkErr e))
      | None \<Rightarrow>
          if \<not> isDir then
            (let ext = Ext (ToLower (unicodeLower x) path)
             in if (case exts ext of Some b \<Rightarrow> b | None \<Rightarrow> False) then (files @ [path], None)
                else (files, None))
          else if \<not> rec \<and> path \<noteq> dir then (files, Some SkipDir)
          else (files, None))"

definition getImageFiles :: "'p extern \<Rightarrow> string \<Rightarrow> bool \<Rightarrow> string list \<times> error option" where
  "getImageFiles x dir rec =
     (case Walk (walkFunc x dir rec) dir (fileTree x dir) [] of
        (files, Some (WalkErr e)) \<Rightarrow> (files, Some e)
      | (files, _) \<Rightarrow> (files, None))"








subsection \<open>Classification and dispatch\<close>

text \<open>
  \<open>separateImageFiles\<close>: the loop appends every file to one of the two lists.
\<close>

definition isHeic :: "'p extern \<Rightarrow> string \<Rightarrow> bool" where
  "isHeic x file =
     (let ext = Ext (ToLower (unicodeLower x) file) in ext = ''.heic'' \<or> ext = ''.heif'')"

fun separateLoop :: "'p extern \<Rightarrow> string list \<Rightarrow> string list \<times> string list \<Rightarrow> string list \<times> string list" where
  "separateLoop x [] (heicFiles, regularFiles) = (heicFiles, regularFiles)"
| "separateLoop x (file # files) (heicFiles, regularFiles) =
     (if isHeic x file then separateLoop x files (heicFiles @ [file], regularFiles)
      else separateLoop x files (heicFiles, regularFiles @ [file]))"

definition separateImageFiles :: "'p extern \<Rightarrow> string list \<Rightarrow> string list \<times> string list" where
  "separateImageFiles x files = separateLoop x files ([], [])"

text \<open>
  What a run does, as far as it is observed here: the directory it creates, the scan,
  and for every file the mode in which it is processed with the result of the processor.
  The two batch functions start one goroutine per file; here they give the results in the
  order of the list, the scheduling is the subject of the next subsection. Printing is
  left out.
\<close>

datatype mode = Convert | Preserve

datatype 'p event =
    MkdirAll string
  | Scan string bool
  | Processed mode string "error + string \<times> 'p encoded"

definition processImagesConcurrently :: "'p extern \<Rightarrow> string list \<Rightarrow> Config \<Rightarrow> 'p event list" where
  "processImagesConcurrently x files config =
     map (\<lambda>filePath. Processed Convert filePath (ProcessImage x filePath config)) files"

definition processImagesWithSameFormat :: "'p extern \<Rightarrow> string list \<Rightarrow> Config \<Rightarrow> 'p event list" where
  "processImagesWithSameFormat x files config =
     map (\<lambda>filePath. Processed Preserve filePath (ProcessImageWithSameFormat x filePath config)) files"

text \<open>
  \<open>runProcess\<close>: the exit code and what was done. \<open>os.Exit(1)\<close> ends the run with the
  code 1, a plain return with 0. \<open>processBatch\<close> is the second half of the function, from
  the classification on.
\<close>

definition configOf :: "flags \<Rightarrow> Config" where
  "configOf fl =
     \<lparr>OutputFormat = outputFormat fl, MaxWidth = maxWidth fl, MaxHeight = maxHeight fl,
      Quality = quality fl, OutputDir = outputDir fl\<rparr>"

definition processBatch :: "'p extern \<Rightarrow> flags \<Rightarrow> string list \<Rightarrow> 'p event list" where
  "processBatch x fl imageFiles =
     (case separateImageFiles x imageFiles of
        (heicFiles, regularFiles) \<Rightarrow>
          (let config = configOf fl
           in if length heicFiles > 0 then processImagesConcurrently x imageFiles config
              else processImagesWithSameFormat x regularFiles config))"


subsection \<open>The bounded worker pool\<close>

text \<open>
  \<open>processImagesConcurrently\<close> and \<open>processImagesWithSameFormat\<close> are the same program
  around two per-file functions. The main goroutine adds one to the wait group and starts
  a goroutine for each file, then waits for the counter to reach zero. A goroutine sends on
  the semaphore channel, which blocks while the buffer of \<open>k\<close> is full, calls the per-file
  function, and then runs its deferred calls: the receive from the channel first, the
  \<open>Done\<close> of the wait group last. The interleavings are the schedules: lists of actions,
  each of which is carried out when it is enabled. \<open>fails i\<close> says whether the per-file
  function returns an error for the \<open>i\<close>-th file; \<open>n\<close> is the number of files.
\<close>

text \<open>
  A goroutine is blocked before its send on the channel, running while it holds a slot
  and the per-file function has not returned, finished when the function has returned
  (it still holds the slot), released when it has received from the channel, and done
  after the \<open>Done\<close> of the wait group. The flag says that the file was processed without
  an error.
\<close>

datatype tstate = Blocked | Running | Finished bool | Released bool | Done bool

datatype mstate = Spawning | Waiting | Returned

record sched =
  mainPc :: mstate
  goroutines :: "tstate list"
  semaphore :: nat
  wgCount :: nat

datatype action = Spawn | EndLoop | Acquire nat | Work nat | Release nat | WgDone nat | WaitReturn

definition initSched :: sched where
  "initSched = \<lparr>mainPc = Spawning, goroutines = [], semaphore = 0, wgCount = 0\<rparr>"

fun stepSched :: "nat \<Rightarrow> nat \<Rightarrow> (nat \<Rightarrow> bool) \<Rightarrow> action \<Rightarrow> sched \<Rightarrow> sched option" where
  "stepSched n k fails Spawn s =
     (if mainPc s = Spawning \<and> length (goroutines s) < n
      then Some (s\<lparr>goroutines := goroutines s @ [Blocked], wgCount := wgCount s + 1\<rparr>)
      else None)"
| "stepSched n k fails EndLoop s =
     (if mainPc s = Spawning \<and> length (goroutines s) = n
      then Some (s\<lparr>mainPc := Waiting\<rparr>)
      else None)"
| "stepSched n k fails (Acquire i) s =
     (if i < length (goroutines s) \<and> goroutines s ! i = Blocked \<and> semaphore s < k
      then Some (s\<lparr>goroutines := (goroutines s)[i := Running], semaphore := semaphore s + 1\<rparr>)
      else None)"
| "stepSched n k fails (Work i) s =
     (if i < length (goroutines s) \<and> goroutines s ! i = Running
      then Some (s\<lparr>goroutines := (goroutines s)[i := Finished (\<not> fails i)]\<rparr>)
      else None)"
| "stepSched n k fails (Release i) s =
     (if i < length (goroutines s) \<and> 0 < semaphore s
      then (case goroutines s ! i of
              Finished ok \<Rightarrow>
                Some (s\<lparr>goroutines := (goroutines s)[i := Released ok],
                        semaphore := semaphore s - 1\<rparr>)
            | _ \<Rightarrow> None)
      else None)"
| "stepSched n k fails (WgDone i) s =
     (if i < length (goroutines s)
      then (case goroutines s ! i of
              Released ok \<Rightarrow>
                Some (s\<lparr>goroutines := (goroutines s)[i := Done ok], wgCount := wgCount s - 1\<rparr>)
            | _ \<Rightarrow> None)
      else None)"
| "stepSched n k fails WaitReturn s =
     (if mainPc s = Waiting \<and> wgCount s = 0 then Some (s\<lparr>mainPc := Returned\<rparr>) else None)"

fun runSched :: "nat \<Rightarrow> nat \<Rightarrow> (nat \<Rightarrow> bool) \<Rightarrow> action list \<Rightarrow> sched \<Rightarrow> sched option" where
  "runSched n k fails [] s = Some s"
| "runSched n k fails (a # as) s =
     (case stepSched n k fails a s of None \<Rightarrow> None | Some s' \<Rightarrow> runSched n k fails as s')"

text \<open>
  The goroutines that hold a slot, the tasks in a terminal state, and the number of
  actions that are left to a state.
\<close>

fun holdsSlot :: "tstate \<Rightarrow> bool" where
  "holdsSlot Running = True"
| "holdsSlot (Finished ok) = True"
| "holdsSlot t = False"

fun terminal :: "tstate \<Rightarrow> bool" where
  "terminal (Done ok) = True"
| "terminal t = False"

definition slotsHeld :: "sched \<Rightarrow> nat" where
  "slotsHeld s = length (filter holdsSlot (goroutines s))"

fun stepsLeft :: "tstate \<Rightarrow> nat" where
  "stepsLeft Blocked = 4"
| "stepsLeft Running = 3"
| "stepsLeft (Finished ok) = 2"
| "stepsLeft (Released ok) = 1"
| "stepsLeft (Done ok) = 0"

fun mainLeft :: "mstate \<Rightarrow> nat" where
  "mainLeft Spawning = 2"
| "mainLeft Waiting = 1"
| "mainLeft Returned = 0"

definition workLeft :: "nat \<Rightarrow> sched \<Rightarrow> nat" where
  "workLeft n s =
     mainLeft (mainPc s) + 5 * (n - length (goroutines s)) + sum_list (map stepsLeft (goroutines s))"

fun resultOk :: "(nat \<Rightarrow> bool) \<Rightarrow> nat \<Rightarrow> tstate \<Rightarrow> bool" where
  "resultOk fails i (Finished ok) = (ok = (\<not> fails i))"
| "resultOk fails i (Released ok) = (ok = (\<not> fails i))"
| "resultOk fails i (Done ok) = (ok = (\<not> fails i))"
| "resultOk fails i t = True"

text \<open>The per-file function of a batch failed for the \<open>i\<close>-th file.\<close>

definition taskFails :: "'p event list \<Rightarrow> nat \<Rightarrow> bool" where
  "taskFails evs i = (case evs ! i of Processed m f r \<Rightarrow> isl r | _ \<Rightarrow> False)"

text \<open>What holds in every state that a schedule reaches.\<close>

definition schedInv :: "nat \<Rightarrow> nat \<Rightarrow> (nat \<Rightarrow> bool) \<Rightarrow> sched \<Rightarrow> bool" where
  "schedInv n k fails s =
     (semaphore s = length (filter holdsSlot (goroutines s))
      \<and> semaphore s \<le> k
      \<and> wgCount s = length (filter (\<lambda>t. \<not> terminal t) (goroutines s))
      \<and> length (goroutines s) \<le> n
      \<and> (mainPc s \<noteq> Spawning \<longrightarrow> length (goroutines s) = n)
      \<and> (mainPc s = Returned \<longrightarrow> wgCount s = 0)
      \<and> (\<forall>i < length (goroutines s). resultOk fails i (goroutines s ! i)))"

section \<open>Sample inputs\<close>

definition demoImage :: "nat image" where
  "demoImage = \<lparr>MinX = 0, MinY = 0, MaxX = 100, MaxY = 50, Pix = 7\<rparr>"


definition wideImage :: "nat image" where
  "wideImage = \<lparr>MinX = 0, MinY = 0, MaxX = 2148, MaxY = 1000, Pix = 1\<rparr>"

text \<open>
  Collaborators that never fail: every path decodes to the given image and the resampler
  returns an image of the size it is asked for. The input directory holds the files of the
  specification's example.
\<close>

definition demoTree :: fsnode where
  "demoTree =
     Dir [(''a.jpg'', File), (''b.heic'', File), (''c.png'', File), (''d.txt'', File),
          (''sub'', Dir [(''e.jpg'', File)])]"

definition demoExtern :: "nat image \<Rightarrow> nat extern" where
  "demoExtern img =
     \<lparr>unicodeLower = (\<lambda>s. s), intIndef = (\<lambda>_. 0),
      osStat = (\<lambda>_. StatOk), osMkdirAll = (\<lambda>_. None), fileTree = (\<lambda>_. demoTree),
      imagingOpen = (\<lambda>_. Inr img), heifDecode = (\<lambda>_. Inr img),
      imagingResize = (\<lambda>i w h. i\<lparr>MinX := 0, MinY := 0, MaxX := w, MaxY := h\<rparr>),
      osCreate = (\<lambda>_. None), jpegEncode = (\<lambda>_ _. None), pngEncode = (\<lambda>_. None)\<rparr>"

definition demoConfig :: Config where
  "demoConfig = \<lparr>OutputFormat = ''png'', MaxWidth = 1920, MaxHeight = 1920, Quality = 85,
     OutputDir = ''/out''\<rparr>"

definition demoFlags :: flags where
  "demoFlags = \<lparr>inputDir = ''in'', outputDir = ''/out'', outputFormat = ''png'',
     maxWidth = 1920, maxHeight = 1920, quality = 85, recursive = True, workers = 4\<rparr>"


text \<open>
  A schedule for three files and two workers in which the second file fails.
\<close>

definition demoSchedule :: "action list" where
  "demoSchedule =
     [Spawn, Spawn, Acquire 0, Acquire 1, Spawn, EndLoop, Work 1, Release 1, Acquire 2,
      WgDone 1, Work 0, Work 2, Release 2, Release 0, WgDone 0, WgDone 2, WaitReturn]"

definition demoFinal :: sched where
  "demoFinal = \<lparr>mainPc = Returned, goroutines = [Done True, Done False, Done True],
     semaphore = 0, wgCount = 0\<rparr>"


section \<open>Paths: auxiliary facts\<close>

text \<open>The extension is a suffix of the path, so that trimming it and appending it are inverse.\<close>

lemma extScan_suffix: "\<exists>pre. rev cs @ acc = pre @ extScan cs acc"
proof (induction cs arbitrary: acc)
  case Nil
  show ?case by simp
next
  case (Cons c cs)
  show ?case
  proof (cases "c = CHR ''/''")
    case True
    then show ?thesis by simp
  next
    case False
    show ?thesis
    proof (cases "c = CHR ''.''")
      case True
      then show ?thesis by simp
    next
      case dot: False
      from Cons.IH [of "c # acc"]
      obtain pre where "rev cs @ c # acc = pre @ extScan cs (c # acc)" ..
      with False dot show ?thesis by simp
    qed
  qed
qed

lemma Ext_suffix: "\<exists>pre. s = pre @ Ext s"
  using extScan_suffix [of "rev s" "[]"] by (simp add: Ext_def)

lemma TrimSuffix_Ext: "TrimSuffix s (Ext s) @ Ext s = s"
proof -
  obtain pre where p: "s = pre @ Ext s" using Ext_suffix by blast
  have len: "length s = length pre + length (Ext s)"
    by (subst p) simp
  have "drop (length pre) s = Ext s" by (subst p) simp
  moreover have "take (length pre) s = pre" by (subst p) simp
  ultimately show ?thesis
    using len append_take_drop_id [of "length pre" s]
    by (simp add: TrimSuffix_def HasSuffix_def)
qed













section \<open>Floating point: auxiliary facts\<close>

text \<open>
  Rounding a positive number stays within its binade, is monotone, leaves an integer below
  \<open>2\<^sup>5\<^sup>3\<close> as it is, and exceeds the number by at most the factor \<open>1 + 2\<^sup>-\<^sup>5\<^sup>3\<close>. From these,
  a dimension scaled by a factor that is at most one and at most the rounded quotient of
  its bound is truncated to a value within the dimension and within the bound.
\<close>

lemma pow2_powi: "pow2 e = 2 powi e"
  by (simp add: pow2_def power_int_def inverse_eq_divide power_one_over)

lemma pow2_pos: "0 < pow2 e"
  by (simp add: pow2_powi)

lemma pow2_mono: "a \<le> b \<Longrightarrow> pow2 a \<le> pow2 b"
  by (simp add: pow2_powi power_int_increasing)

lemma pow2_Suc: "pow2 (e + 1) = 2 * pow2 e"
  by (simp add: pow2_powi power_int_add_1')

lemma pow2_nat: "0 \<le> e \<Longrightarrow> pow2 e = 2 ^ nat e"
  by (simp add: pow2_def)

lemma floorLog2_bounds:
  assumes "0 < x"
  shows "pow2 (floorLog2 x) \<le> x" and "x < pow2 (floorLog2 x + 1)"
proof -
  have "pow2 (floorLog2 x) \<le> x \<and> x < pow2 (floorLog2 x + 1)"
  proof (cases "1 \<le> x")
    case True
    define n where "n = \<lfloor>x\<rfloor>"
    from True have n: "0 < n" by (simp add: n_def)
    from bitlen_bounds [OF n] have lo: "2 ^ nat (bitlen n - 1) \<le> n" and hi: "n < 2 ^ nat (bitlen n)"
      by simp_all
    from n have b: "1 \<le> bitlen n" using bitlen_eq_zero_iff [of n] bitlen_nonneg [of n] by linarith
    have e: "floorLog2 x = bitlen n - 1" using True by (simp add: floorLog2_def n_def)
    have "pow2 (bitlen n - 1) = of_int (2 ^ nat (bitlen n - 1))" using b by (simp add: pow2_nat)
    also have "\<dots> \<le> of_int n" using lo by (simp only: of_int_le_iff)
    also have "\<dots> \<le> x" by (simp add: n_def)
    finally have 1: "pow2 (floorLog2 x) \<le> x" by (simp add: e)
    from hi have "n + 1 \<le> 2 ^ nat (bitlen n)" by simp
    then have hi': "(of_int (n + 1) :: rat) \<le> of_int (2 ^ nat (bitlen n))"
      by (simp only: of_int_le_iff)
    have "x < of_int (n + 1)" using floor_correct [of x] by (simp add: n_def)
    moreover have "of_int (2 ^ nat (bitlen n)) = pow2 (bitlen n)" using b by (simp add: pow2_nat)
    ultimately have "x < pow2 (floorLog2 x + 1)" using hi' by (simp add: e)
    with 1 show ?thesis by simp
  next
    case False
    define y where "y = 1 / x"
    define m where "m = \<lceil>y\<rceil> - 1"
    from False assms have y1: "1 < y" by (simp add: y_def)
    then have "1 < \<lceil>y\<rceil>" by (simp add: less_ceiling_iff)
    then have m: "0 < m" by (simp add: m_def)
    from bitlen_bounds [OF m] have lo: "2 ^ nat (bitlen m - 1) \<le> m" and hi: "m < 2 ^ nat (bitlen m)"
      by simp_all
    from m have b: "1 \<le> bitlen m" using bitlen_eq_zero_iff [of m] bitlen_nonneg [of m] by linarith
    have e: "floorLog2 x = - bitlen m" using False by (simp add: floorLog2_def m_def y_def)
    have ypos: "0 < y" using y1 by simp
    have xy: "x = 1 / y" using assms by (simp add: y_def)
    from hi have "m + 1 \<le> 2 ^ nat (bitlen m)" by simp
    then have hi': "(of_int (m + 1) :: rat) \<le> of_int (2 ^ nat (bitlen m))"
      by (simp only: of_int_le_iff)
    have "y \<le> of_int (m + 1)" using ceiling_correct [of y] by (simp add: m_def)
    with hi' have yhi: "y \<le> 2 ^ nat (bitlen m)" by simp
    have "pow2 (- bitlen m) = 1 / 2 ^ nat (bitlen m)" using b by (simp add: pow2_def)
    also have "\<dots> \<le> 1 / y" using yhi ypos by (simp add: frac_le)
    finally have 1: "pow2 (floorLog2 x) \<le> x" unfolding e using xy by simp
    have "of_int (2 ^ nat (bitlen m - 1)) \<le> (of_int m :: rat)" using lo by (simp only: of_int_le_iff)
    also have "of_int m < y" using ceiling_correct [of y] by (simp add: m_def)
    finally have ylo: "2 ^ nat (bitlen m - 1) < y" by simp
    have "1 / y < 1 / 2 ^ nat (bitlen m - 1)" using ylo by (simp add: frac_less2)
    also have "\<dots> = pow2 (- bitlen m + 1)"
    proof (cases "bitlen m = 1")
      case True
      then show ?thesis by (simp add: pow2_def)
    next
      case False
      with b have "- bitlen m + 1 < 0" by simp
      moreover have "nat (- (- bitlen m + 1)) = nat (bitlen m - 1)" by simp
      ultimately show ?thesis by (simp add: pow2_def)
    qed
    finally have "x < pow2 (floorLog2 x + 1)" unfolding e using xy by simp
    with 1 show ?thesis by simp
  qed
  then show "pow2 (floorLog2 x) \<le> x" and "x < pow2 (floorLog2 x + 1)" by simp_all
qed

lemma roundHalfEven_floor: "\<lfloor>y\<rfloor> \<le> roundHalfEven y" "roundHalfEven y \<le> \<lfloor>y\<rfloor> + 1"
  by (simp_all add: roundHalfEven_def Let_def)

lemma roundHalfEven_upper: "of_int (roundHalfEven y) \<le> y + 1 / 2"
proof (cases "y - of_int \<lfloor>y\<rfloor> < 1 / 2")
  case True
  then have "roundHalfEven y = \<lfloor>y\<rfloor>" by (simp add: roundHalfEven_def Let_def)
  moreover have "of_int \<lfloor>y\<rfloor> \<le> y" by simp
  ultimately show ?thesis by linarith
next
  case False
  from roundHalfEven_floor(2) [of y]
  have "(of_int (roundHalfEven y) :: rat) \<le> of_int (\<lfloor>y\<rfloor> + 1)" by (simp only: of_int_le_iff)
  then have "(of_int (roundHalfEven y) :: rat) \<le> of_int \<lfloor>y\<rfloor> + 1" by simp
  with False show ?thesis by linarith
qed

lemma roundHalfEven_int: "roundHalfEven (of_int n) = n"
  by (simp add: roundHalfEven_def Let_def)

lemma roundHalfEven_mono:
  assumes "y \<le> z"
  shows "roundHalfEven y \<le> roundHalfEven z"
proof (cases "\<lfloor>y\<rfloor> < \<lfloor>z\<rfloor>")
  case True
  with roundHalfEven_floor(2) [of y] roundHalfEven_floor(1) [of z] show ?thesis by linarith
next
  case False
  with assms floor_mono [of y z] have eq: "\<lfloor>y\<rfloor> = \<lfloor>z\<rfloor>" by linarith
  with assms show ?thesis by (auto simp: roundHalfEven_def Let_def)
qed

lemma pow2_scale: "pow2 (e - 52) * 2 ^ 52 = pow2 e"
proof -
  have "pow2 e = 2 powi ((e - 52) + 52)" by (simp add: pow2_powi)
  also have "\<dots> = 2 powi (e - 52) * 2 powi 52" by (rule power_int_add) simp
  finally show ?thesis by (simp add: pow2_powi)
qed

lemma pow2_scale': "pow2 (e - 52) * 4503599627370496 = pow2 e"
  using pow2_scale [of e] by simp

lemma roundPos_upper:
  assumes "0 < x"
  shows "roundPos x \<le> x * (1 + 1 / 2 ^ 53)"
proof -
  define u where "u = pow2 (floorLog2 x - 52)"
  have u: "0 < u" by (simp add: u_def pow2_pos)
  have "u * 2 ^ 52 \<le> x" using floorLog2_bounds(1) [OF assms] by (simp add: u_def pow2_scale')
  then have ux: "u / 2 \<le> x / 2 ^ 53" by simp
  have "of_int (roundHalfEven (x / u)) \<le> x / u + 1 / 2" by (rule roundHalfEven_upper)
  then have "of_int (roundHalfEven (x / u)) * u \<le> (x / u + 1 / 2) * u"
    using u by (simp only: mult_le_cancel_right_pos)
  also have "\<dots> = x + u / 2" using u by (simp add: field_simps)
  also have "\<dots> \<le> x + x / 2 ^ 53" using ux by simp
  finally show ?thesis by (simp add: roundPos_def u_def Let_def field_simps)
qed

lemma roundPos_range:
  assumes "0 < x"
  shows "pow2 (floorLog2 x) \<le> roundPos x" and "roundPos x \<le> pow2 (floorLog2 x + 1)"
proof -
  define u where "u = pow2 (floorLog2 x - 52)"
  have u: "0 < u" by (simp add: u_def pow2_pos)
  have sc: "u * 2 ^ 52 = pow2 (floorLog2 x)" by (simp add: u_def pow2_scale')
  from floorLog2_bounds [OF assms] sc
  have lo: "u * 2 ^ 52 \<le> x" and hi: "x < u * 2 ^ 53" by (simp_all add: pow2_Suc)
  from lo u have "of_int (2 ^ 52) \<le> x / u" by (simp add: field_simps)
  from roundHalfEven_mono [OF this] have "2 ^ 52 \<le> roundHalfEven (x / u)"
    by (simp only: roundHalfEven_int)
  then have "(of_int (2 ^ 52) :: rat) \<le> of_int (roundHalfEven (x / u))"
    by (simp only: of_int_le_iff)
  then have "2 ^ 52 * u \<le> of_int (roundHalfEven (x / u)) * u"
    using u by simp
  then show "pow2 (floorLog2 x) \<le> roundPos x"
    using sc by (simp add: roundPos_def Let_def u_def mult.commute)
  from hi u have "x / u \<le> of_int (2 ^ 53)" by (simp add: field_simps)
  from roundHalfEven_mono [OF this] have "roundHalfEven (x / u) \<le> 2 ^ 53"
    by (simp only: roundHalfEven_int)
  then have "of_int (roundHalfEven (x / u)) \<le> (of_int (2 ^ 53) :: rat)"
    by (simp only: of_int_le_iff)
  then have "of_int (roundHalfEven (x / u)) * u \<le> 2 ^ 53 * u"
    using u by simp
  then show "roundPos x \<le> pow2 (floorLog2 x + 1)"
    using sc by (simp add: roundPos_def Let_def u_def pow2_Suc mult.commute)
qed

lemma floorLog2_mono:
  assumes "0 < x" and "x \<le> y"
  shows "floorLog2 x \<le> floorLog2 y"
proof (rule ccontr)
  assume "\<not> floorLog2 x \<le> floorLog2 y"
  then have "floorLog2 y + 1 \<le> floorLog2 x" by simp
  from pow2_mono [OF this] have "pow2 (floorLog2 y + 1) \<le> pow2 (floorLog2 x)" .
  also have "\<dots> \<le> x" using assms by (intro floorLog2_bounds)
  also note \<open>x \<le> y\<close>
  also have "y < pow2 (floorLog2 y + 1)" using assms by (intro floorLog2_bounds) simp
  finally show False by simp
qed

lemma roundPos_mono:
  assumes "0 < x" and "x \<le> y"
  shows "roundPos x \<le> roundPos y"
proof (cases "floorLog2 x = floorLog2 y")
  case True
  define u where "u = pow2 (floorLog2 x - 52)"
  have u: "0 < u" by (simp add: u_def pow2_pos)
  from assms u have "x / u \<le> y / u" by (simp add: divide_right_mono)
  from roundHalfEven_mono [OF this]
  have "of_int (roundHalfEven (x / u)) \<le> (of_int (roundHalfEven (y / u)) :: rat)"
    by (simp only: of_int_le_iff)
  with u have "of_int (roundHalfEven (x / u)) * u \<le> of_int (roundHalfEven (y / u)) * u"
    by simp
  then show ?thesis using True by (simp add: roundPos_def Let_def u_def)
next
  case False
  with floorLog2_mono [OF assms] have "floorLog2 x + 1 \<le> floorLog2 y" by simp
  from pow2_mono [OF this] have m: "pow2 (floorLog2 x + 1) \<le> pow2 (floorLog2 y)" .
  from assms have y: "0 < y" by simp
  from roundPos_range(2) [OF assms(1)] m roundPos_range(1) [OF y] show ?thesis by linarith
qed

lemma roundPos_int:
  assumes "0 < n" and "n < 2 ^ 53"
  shows "roundPos (of_int n) = of_int n"
proof -
  define e where "e = floorLog2 (of_int n)"
  from assms have pos: "(0::rat) < of_int n" by simp
  have e0: "0 \<le> e"
  proof -
    from assms have "1 \<le> bitlen n" using bitlen_eq_zero_iff [of n] bitlen_nonneg [of n] by linarith
    with assms show ?thesis by (simp add: e_def floorLog2_def)
  qed
  have e52: "e \<le> 52"
  proof (rule ccontr)
    assume "\<not> e \<le> 52"
    then have "53 \<le> e" by simp
    from pow2_mono [OF this] have "pow2 53 \<le> pow2 e" .
    also have "\<dots> \<le> of_int n" unfolding e_def using pos by (rule floorLog2_bounds)
    finally have "(2::rat) ^ 53 \<le> of_int n" by (simp add: pow2_def)
    then have "(of_int (2 ^ 53) :: rat) \<le> of_int n" by simp
    then have "2 ^ 53 \<le> n" by (simp only: of_int_le_iff)
    with assms show False by simp
  qed
  define k where "k = nat (52 - e)"
  have u: "pow2 (e - 52) * 2 ^ k = 1"
  proof -
    have "pow2 (e - 52) * 2 ^ k = 2 powi (e - 52) * 2 powi (int k)" by (simp add: pow2_powi)
    also have "\<dots> = 2 powi ((e - 52) + int k)" by (rule power_int_add [symmetric]) simp
    also have "(e - 52) + int k = 0" using e52 by (simp add: k_def)
    finally show ?thesis by simp
  qed
  have upos: "0 < pow2 (e - 52)" by (rule pow2_pos)
  have "of_int n / pow2 (e - 52) = of_int n * 2 ^ k"
    using u upos by (simp add: field_simps)
  also have "\<dots> = of_int (n * 2 ^ k)" by simp
  finally have q: "of_int n / pow2 (e - 52) = of_int (n * 2 ^ k)" .
  have "roundPos (of_int n) = of_int (n * 2 ^ k) * pow2 (e - 52)"
    unfolding roundPos_def Let_def e_def [symmetric] q roundHalfEven_int ..
  also have "\<dots> = of_int n * (pow2 (e - 52) * 2 ^ k)" by simp
  finally show ?thesis by (simp add: u)
qed

lemma roundPos_pos: "0 < x \<Longrightarrow> 0 < roundPos x"
  using roundPos_range(1) [of x] pow2_pos [of "floorLog2 x"] by linarith

lemma round64_pos: "0 < x \<Longrightarrow> round64 x = roundPos x"
  by (simp add: round64_def)

lemma float64_exact:
  assumes "0 < n" and "n < 2 ^ 31"
  shows "float64 n = of_int n"
proof -
  from assms have "n < 2 ^ 53" by simp
  from roundPos_int [OF assms(1) this] assms(1) show ?thesis
    by (simp add: float64_def round64_def)
qed

lemma scaled_dimension:
  assumes d: "0 < d" "d < 2 ^ 31" and m: "0 < m" "m < 2 ^ 31"
    and c: "0 < c" "c \<le> roundPos (of_int m / of_int d)" "c \<le> 1"
  shows "0 \<le> toInt indef (fmul (float64 d) (Fin c))"
    and "toInt indef (fmul (float64 d) (Fin c)) \<le> m"
    and "toInt indef (fmul (float64 d) (Fin c)) \<le> d"
proof -
  define p where "p = roundPos (of_int d * c)"
  have dpos: "(0::rat) < of_int d" using d by simp
  have mpos: "(0::rat) < of_int m" using m by simp
  have dc: "0 < of_int d * c" using dpos c by simp
  have f: "fmul (float64 d) (Fin c) = Fin p"
    using dc by (simp add: float64_exact [OF d] round64_pos p_def)
  have ppos: "0 < p" unfolding p_def using dc by (rule roundPos_pos)
  have "of_int d * c \<le> of_int d * 1" using dpos c by (intro mult_left_mono) simp_all
  then have "of_int d * c \<le> of_int d" by simp
  from roundPos_mono [OF dc this] have pd: "p \<le> of_int d"
    using d by (simp add: p_def roundPos_int)
  have q: "(0::rat) < of_int m / of_int d" using dpos mpos by simp
  have "c \<le> of_int m / of_int d * (1 + 1 / 2 ^ 53)"
    using c(2) roundPos_upper [OF q] by linarith
  then have "of_int d * c \<le> of_int d * (of_int m / of_int d * (1 + 1 / 2 ^ 53))"
    using dpos by (intro mult_left_mono) simp_all
  also have "\<dots> = of_int m * (1 + 1 / 2 ^ 53)" using dpos by simp
  finally have dcm: "of_int d * c \<le> of_int m * (1 + 1 / 2 ^ 53)" .
  have "p \<le> of_int d * c * (1 + 1 / 2 ^ 53)" unfolding p_def using dc by (rule roundPos_upper)
  also have "\<dots> \<le> of_int m * (1 + 1 / 2 ^ 53) * (1 + 1 / 2 ^ 53)"
    using dcm by (intro mult_right_mono) simp_all
  finally have pm: "p \<le> of_int m * (1 + 1 / 2 ^ 53) * (1 + 1 / 2 ^ 53)" .
  have "(of_int m :: rat) < 2 ^ 31" using m(2) by (metis of_int_less_iff of_int_numeral of_int_power)
  with pm mpos have pm1: "p < of_int m + 1" by simp
  have t: "truncToZero p = \<lfloor>p\<rfloor>" using ppos by (simp add: truncToZero_def)
  have fl0: "0 \<le> \<lfloor>p\<rfloor>" using ppos by simp
  have fld: "\<lfloor>p\<rfloor> \<le> d" using pd by (simp add: floor_le_iff)
  have flm: "\<lfloor>p\<rfloor> \<le> m" using pm1 by (simp add: floor_le_iff)
  from d have "d < 2 ^ 63" by simp
  with fld have "\<lfloor>p\<rfloor> < 2 ^ 63" by (rule le_less_trans)
  with fl0 have ti: "toInt indef (Fin p) = \<lfloor>p\<rfloor>" by (simp add: t)
  from fl0 f ti show "0 \<le> toInt indef (fmul (float64 d) (Fin c))" by simp
  from flm f ti show "toInt indef (fmul (float64 d) (Fin c)) \<le> m" by simp
  from fld f ti show "toInt indef (fmul (float64 d) (Fin c)) \<le> d" by simp
qed

section \<open>The command: auxiliary facts\<close>

lemma separateLoop_filter:
  "separateLoop x files (h, r) = (h @ filter (isHeic x) files, r @ filter (\<lambda>f. \<not> isHeic x f) files)"
  by (induction files arbitrary: h r) auto

lemma separateImageFiles_filter:
  "separateImageFiles x files = (filter (isHeic x) files, filter (\<lambda>f. \<not> isHeic x f) files)"
  by (simp add: separateImageFiles_def separateLoop_filter)








lemma walkFunc_dir:
  "walkFunc x dir rec files path True None =
     (files, if \<not> rec \<and> path \<noteq> dir then Some SkipDir else None)"
  by (simp add: walkFunc_def)


lemma walk_skipped:
  "path \<noteq> dir \<Longrightarrow> walk (walkFunc x dir False) path (Dir sub) files = (files, Some SkipDir)"
  by (simp add: walkFunc_dir)









subsection \<open>The worker pool\<close>

text \<open>
  The invariant is kept by every action; with it, a pool that has not returned can move,
  every action uses up one unit of the work left, and the state after the return is the
  list of results.
\<close>

lemma filter_update_count:
  "i < length ts \<Longrightarrow>
     length (filter P (ts[i := v])) + (if P (ts ! i) then 1 else 0)
       = length (filter P ts) + (if P v then 1 else 0)"
proof (induction ts arbitrary: i)
  case Nil
  then show ?case by simp
next
  case (Cons t ts)
  show ?case
  proof (cases i)
    case 0
    then show ?thesis by simp
  next
    case (Suc j)
    with Cons.prems have "j < length ts" by simp
    from Cons.IH [OF this] Suc show ?thesis by simp
  qed
qed

lemma sum_update:
  "i < length ts \<Longrightarrow>
     sum_list (map f (ts[i := v])) + f (ts ! i) = sum_list (map f ts) + (f v :: nat)"
proof (induction ts arbitrary: i)
  case Nil
  then show ?case by simp
next
  case (Cons t ts)
  show ?case
  proof (cases i)
    case 0
    then show ?thesis by simp
  next
    case (Suc j)
    with Cons.prems have "j < length ts" by simp
    from Cons.IH [OF this] Suc show ?thesis by simp
  qed
qed

lemma schedInv_init: "schedInv n k fails initSched"
  by (simp add: schedInv_def initSched_def)

lemma schedInv_step:
  assumes inv: "schedInv n k fails s" and st: "stepSched n k fails a s = Some s'"
  shows "schedInv n k fails s'"
proof (cases a)
  case Spawn
  with st inv show ?thesis
    by (auto simp: schedInv_def nth_append split: if_splits)
next
  case EndLoop
  with st inv show ?thesis
    by (auto simp: schedInv_def split: if_splits)
next
  case (Acquire i)
  with st have i: "i < length (goroutines s)" and b: "goroutines s ! i = Blocked"
    and lt: "semaphore s < k"
    and s': "s' = s\<lparr>goroutines := (goroutines s)[i := Running], semaphore := semaphore s + 1\<rparr>"
    by (auto split: if_splits)
  from filter_update_count [OF i, of holdsSlot Running] b
  have h: "length (filter holdsSlot ((goroutines s)[i := Running]))
      = length (filter holdsSlot (goroutines s)) + 1" by simp
  from filter_update_count [OF i, of "\<lambda>t. \<not> terminal t" Running] b
  have t: "length (filter (\<lambda>t. \<not> terminal t) ((goroutines s)[i := Running]))
      = length (filter (\<lambda>t. \<not> terminal t) (goroutines s))" by simp
  from inv lt h t i show ?thesis
    by (auto simp: schedInv_def s' nth_list_update)
next
  case (Work i)
  with st have i: "i < length (goroutines s)" and b: "goroutines s ! i = Running"
    and s': "s' = s\<lparr>goroutines := (goroutines s)[i := Finished (\<not> fails i)]\<rparr>"
    by (auto split: if_splits)
  from filter_update_count [OF i, of holdsSlot "Finished (\<not> fails i)"] b
  have h: "length (filter holdsSlot ((goroutines s)[i := Finished (\<not> fails i)]))
      = length (filter holdsSlot (goroutines s))" by simp
  from filter_update_count [OF i, of "\<lambda>t. \<not> terminal t" "Finished (\<not> fails i)"] b
  have t: "length (filter (\<lambda>t. \<not> terminal t) ((goroutines s)[i := Finished (\<not> fails i)]))
      = length (filter (\<lambda>t. \<not> terminal t) (goroutines s))" by simp
  from inv h t i show ?thesis
    by (auto simp: schedInv_def s' nth_list_update)
next
  case (Release i)
  with st obtain ok where i: "i < length (goroutines s)" and b: "goroutines s ! i = Finished ok"
    and pos: "0 < semaphore s"
    and s': "s' = s\<lparr>goroutines := (goroutines s)[i := Released ok],
                     semaphore := semaphore s - 1\<rparr>"
    by (auto split: if_splits tstate.splits)
  from filter_update_count [OF i, of holdsSlot "Released ok"] b
  have h: "length (filter holdsSlot ((goroutines s)[i := Released ok])) + 1
      = length (filter holdsSlot (goroutines s))" by simp
  from filter_update_count [OF i, of "\<lambda>t. \<not> terminal t" "Released ok"] b
  have t: "length (filter (\<lambda>t. \<not> terminal t) ((goroutines s)[i := Released ok]))
      = length (filter (\<lambda>t. \<not> terminal t) (goroutines s))" by simp
  from inv b i have "resultOk fails i (Finished ok)" by (auto simp: schedInv_def)
  with inv h t pos i show ?thesis
    by (auto simp: schedInv_def s' nth_list_update)
next
  case (WgDone i)
  with st obtain ok where i: "i < length (goroutines s)" and b: "goroutines s ! i = Released ok"
    and s': "s' = s\<lparr>goroutines := (goroutines s)[i := Done ok], wgCount := wgCount s - 1\<rparr>"
    by (auto split: if_splits tstate.splits)
  from filter_update_count [OF i, of holdsSlot "Done ok"] b
  have h: "length (filter holdsSlot ((goroutines s)[i := Done ok]))
      = length (filter holdsSlot (goroutines s))" by simp
  from filter_update_count [OF i, of "\<lambda>t. \<not> terminal t" "Done ok"] b
  have t: "length (filter (\<lambda>t. \<not> terminal t) ((goroutines s)[i := Done ok])) + 1
      = length (filter (\<lambda>t. \<not> terminal t) (goroutines s))" by simp
  from inv b i have "resultOk fails i (Released ok)" by (auto simp: schedInv_def)
  with inv h t i show ?thesis
    by (auto simp: schedInv_def s' nth_list_update)
next
  case WaitReturn
  with st inv show ?thesis
    by (auto simp: schedInv_def split: if_splits)
qed

lemma schedInv_run:
  "schedInv n k fails s \<Longrightarrow> runSched n k fails as s = Some s' \<Longrightarrow> schedInv n k fails s'"
proof (induction as arbitrary: s)
  case Nil
  then show ?case by simp
next
  case (Cons a as)
  from Cons.prems(2) obtain s1 where a: "stepSched n k fails a s = Some s1"
    and r: "runSched n k fails as s1 = Some s'"
    by (auto split: option.splits)
  from schedInv_step [OF Cons.prems(1) a] have "schedInv n k fails s1" .
  from Cons.IH [OF this r] show ?case .
qed

lemma filter_nonempty_nth: "filter P xs \<noteq> [] \<Longrightarrow> \<exists>i < length xs. P (xs ! i)"
  by (auto simp: filter_empty_conv in_set_conv_nth)

lemma filter_pos_nth: "i < length xs \<Longrightarrow> P (xs ! i) \<Longrightarrow> 0 < length (filter P xs)"
  by (auto simp: filter_empty_conv)

lemma holder_can_move:
  assumes inv: "schedInv n k fails s" and j: "j < length (goroutines s)"
    and h: "holdsSlot (goroutines s ! j)"
  shows "\<exists>a. stepSched n k fails a s \<noteq> None"
proof -
  from inv have sem: "semaphore s = length (filter holdsSlot (goroutines s))"
    by (simp add: schedInv_def)
  from filter_pos_nth [of j "goroutines s" holdsSlot, OF j h] sem have pos: "0 < semaphore s" by simp
  show ?thesis
  proof (cases "goroutines s ! j")
    case Running
    with j have "stepSched n k fails (Work j) s \<noteq> None" by simp
    then show ?thesis ..
  next
    case (Finished ok)
    with j pos have "stepSched n k fails (Release j) s \<noteq> None" by simp
    then show ?thesis ..
  qed (use h in simp_all)
qed

lemma sched_progress:
  assumes inv: "schedInv n k fails s" and k: "0 < k" and nr: "mainPc s \<noteq> Returned"
  shows "\<exists>a. stepSched n k fails a s \<noteq> None"
proof (cases "mainPc s")
  case Spawning
  from inv have "length (goroutines s) \<le> n" by (simp add: schedInv_def)
  then consider "length (goroutines s) < n" | "length (goroutines s) = n" by linarith
  then show ?thesis
  proof cases
    case 1
    with Spawning have "stepSched n k fails Spawn s \<noteq> None" by simp
    then show ?thesis ..
  next
    case 2
    with Spawning have "stepSched n k fails EndLoop s \<noteq> None" by simp
    then show ?thesis ..
  qed
next
  case Waiting
  show ?thesis
  proof (cases "wgCount s = 0")
    case True
    with Waiting have "stepSched n k fails WaitReturn s \<noteq> None" by simp
    then show ?thesis ..
  next
    case False
    with inv have "filter (\<lambda>t. \<not> terminal t) (goroutines s) \<noteq> []"
      by (auto simp: schedInv_def)
    from filter_nonempty_nth [OF this]
    obtain i where i: "i < length (goroutines s)" and nt: "\<not> terminal (goroutines s ! i)"
      by blast
    show ?thesis
    proof (cases "goroutines s ! i")
      case Blocked
      show ?thesis
      proof (cases "semaphore s < k")
        case True
        with i Blocked have "stepSched n k fails (Acquire i) s \<noteq> None" by simp
        then show ?thesis ..
      next
        case False
        with k inv have "filter holdsSlot (goroutines s) \<noteq> []"
          by (auto simp: schedInv_def)
        from filter_nonempty_nth [OF this]
        obtain j where "j < length (goroutines s)" and "holdsSlot (goroutines s ! j)" by blast
        from holder_can_move [OF inv this] show ?thesis .
      qed
    next
      case Running
      with i holder_can_move [OF inv i] show ?thesis by simp
    next
      case (Finished ok)
      with i holder_can_move [OF inv i] show ?thesis by simp
    next
      case (Released ok)
      with i have "stepSched n k fails (WgDone i) s \<noteq> None" by simp
      then show ?thesis ..
    next
      case (Done ok)
      with nt show ?thesis by simp
    qed
  qed
next
  case Returned
  with nr show ?thesis by simp
qed

lemma sched_decreases:
  assumes st: "stepSched n k fails a s = Some s'"
  shows "workLeft n s' < workLeft n s"
proof (cases a)
  case Spawn
  with st show ?thesis by (auto simp: workLeft_def split: if_splits)
next
  case EndLoop
  with st show ?thesis by (auto simp: workLeft_def split: if_splits)
next
  case (Acquire i)
  with st have i: "i < length (goroutines s)" and b: "goroutines s ! i = Blocked"
    and s': "s' = s\<lparr>goroutines := (goroutines s)[i := Running], semaphore := semaphore s + 1\<rparr>"
    by (auto split: if_splits)
  from sum_update [OF i, of stepsLeft Running] b show ?thesis
    by (simp add: workLeft_def s')
next
  case (Work i)
  with st have i: "i < length (goroutines s)" and b: "goroutines s ! i = Running"
    and s': "s' = s\<lparr>goroutines := (goroutines s)[i := Finished (\<not> fails i)]\<rparr>"
    by (auto split: if_splits)
  from sum_update [OF i, of stepsLeft "Finished (\<not> fails i)"] b show ?thesis
    by (simp add: workLeft_def s')
next
  case (Release i)
  with st obtain ok where i: "i < length (goroutines s)" and b: "goroutines s ! i = Finished ok"
    and s': "s' = s\<lparr>goroutines := (goroutines s)[i := Released ok],
                     semaphore := semaphore s - 1\<rparr>"
    by (auto split: if_splits tstate.splits)
  from sum_update [OF i, of stepsLeft "Released ok"] b show ?thesis
    by (simp add: workLeft_def s')
next
  case (WgDone i)
  with st obtain ok where i: "i < length (goroutines s)" and b: "goroutines s ! i = Released ok"
    and s': "s' = s\<lparr>goroutines := (goroutines s)[i := Done ok], wgCount := wgCount s - 1\<rparr>"
    by (auto split: if_splits tstate.splits)
  from sum_update [OF i, of stepsLeft "Done ok"] b show ?thesis
    by (simp add: workLeft_def s')
next
  case WaitReturn
  with st show ?thesis by (auto simp: workLeft_def split: if_splits)
qed

lemma sched_completes:
  assumes k: "0 < k"
  shows "schedInv n k fails s \<Longrightarrow>
    \<exists>bs s'. runSched n k fails bs s = Some s' \<and> mainPc s' = Returned"
proof (induction "workLeft n s" arbitrary: s rule: less_induct)
  case less
  show ?case
  proof (cases "mainPc s = Returned")
    case True
    then have "runSched n k fails [] s = Some s \<and> mainPc s = Returned" by simp
    then show ?thesis by blast
  next
    case False
    from sched_progress [OF less.prems k False]
    obtain a s1 where a: "stepSched n k fails a s = Some s1" by auto
    from sched_decreases [OF a] have "workLeft n s1 < workLeft n s" .
    moreover from schedInv_step [OF less.prems a] have "schedInv n k fails s1" .
    ultimately obtain bs s' where "runSched n k fails bs s1 = Some s'" and "mainPc s' = Returned"
      using less.hyps by blast
    with a have "runSched n k fails (a # bs) s = Some s' \<and> mainPc s' = Returned" by simp
    then show ?thesis by blast
  qed
qed

lemma sched_final:
  assumes inv: "schedInv n k fails s" and r: "mainPc s = Returned"
  shows "goroutines s = map (\<lambda>i. Done (\<not> fails i)) [0..<n]" and "semaphore s = 0"
proof -
  from inv r have len: "length (goroutines s) = n"
    and e: "filter (\<lambda>t. \<not> terminal t) (goroutines s) = []"
    and res: "\<forall>i < length (goroutines s). resultOk fails i (goroutines s ! i)"
    and sem: "semaphore s = length (filter holdsSlot (goroutines s))"
    by (auto simp: schedInv_def)
  from e have allDone: "\<forall>t \<in> set (goroutines s). terminal t" by (simp add: filter_empty_conv)
  have d: "goroutines s ! i = Done (\<not> fails i)" if i: "i < n" for i
  proof -
    from i len allDone have "terminal (goroutines s ! i)" by simp
    moreover from i len res have "resultOk fails i (goroutines s ! i)" by simp
    ultimately show ?thesis by (cases "goroutines s ! i") simp_all
  qed
  with len show "goroutines s = map (\<lambda>i. Done (\<not> fails i)) [0..<n]"
    by (intro nth_equalityI) simp_all
  have "\<not> holdsSlot t" if "t \<in> set (goroutines s)" for t
    using allDone that by (cases t) auto
  then have "filter holdsSlot (goroutines s) = []" by (simp add: filter_empty_conv)
  with sem show "semaphore s = 0" by simp
qed


text \<open>
  The pool of \<open>processImagesConcurrently\<close> ends with the results of \<open>ProcessImage\<close>,
  that of \<open>processImagesWithSameFormat\<close> with those of \<open>ProcessImageWithSameFormat\<close>.
\<close>

lemma pool_results_convert:
  assumes "runSched (length files) k (taskFails (processImagesConcurrently x files config)) as
      initSched = Some s"
    and "mainPc s = Returned"
  shows "goroutines s = map (\<lambda>f. Done (\<not> isl (ProcessImage x f config))) files"
proof -
  from schedInv_run [OF schedInv_init assms(1)] assms(2)
  have "goroutines s = map (\<lambda>i. Done (\<not> taskFails (processImagesConcurrently x files config) i))
      [0..<length files]"
    by (rule sched_final)
  also have "\<dots> = map (\<lambda>f. Done (\<not> isl (ProcessImage x f config))) files"
    by (rule nth_equalityI) (simp_all add: taskFails_def processImagesConcurrently_def)
  finally show ?thesis .
qed

lemma pool_results_preserve:
  assumes "runSched (length files) k (taskFails (processImagesWithSameFormat x files config)) as
      initSched = Some s"
    and "mainPc s = Returned"
  shows "goroutines s = map (\<lambda>f. Done (\<not> isl (ProcessImageWithSameFormat x f config))) files"
proof -
  from schedInv_run [OF schedInv_init assms(1)] assms(2)
  have "goroutines s = map (\<lambda>i. Done (\<not> taskFails (processImagesWithSameFormat x files config) i))
      [0..<length files]"
    by (rule sched_final)
  also have "\<dots> = map (\<lambda>f. Done (\<not> isl (ProcessImageWithSameFormat x f config))) files"
    by (rule nth_equalityI) (simp_all add: taskFails_def processImagesWithSameFormat_def)
  finally show ?thesis .
qed

section \<open>Properties of the processor package\<close>

text \<open>
  Claim C1, at a BMP input. In format-preserving mode the output of a file should be
  encoded in the file's own format. For \<open>/in/photo.bmp\<close> the program writes
  \<open>/out/photo.bmp\<close> and encodes it as JPEG: only the extension \<open>.png\<close> is recognised,
  every other input falls to the JPEG default.
\<close>

theorem sameformat_bmp_written_as_jpeg:
  "ProcessImageWithSameFormat (demoExtern demoImage) ''/in/photo.bmp'' demoConfig
     = Inr (''/out/photo.bmp'', Jpeg demoImage 85)"
  by code_simp

text \<open>The second half of C1 holds: the configured output format plays no part.\<close>

lemma sameformat_ignores_OutputFormat:
  "ProcessImageWithSameFormat x inputPath (config\<lparr>OutputFormat := f\<rparr>)
     = ProcessImageWithSameFormat x inputPath config"
  by (simp add: ProcessImageWithSameFormat_def split: sum.splits)

text \<open>
  Claim C2. An image whose width is at most the maximum width \<open>maxW\<close> and whose height is
  at most the maximum height \<open>maxH\<close> is returned by \<open>resizeImage\<close> as it is: nothing is ever scaled up.
\<close>

theorem resizeImage_unchanged:
  "MaxX img - MinX img \<le> maxW \<Longrightarrow> MaxY img - MinY img \<le> maxH \<Longrightarrow>
   resizeImage x img maxW maxH = img"
  by (simp add: resizeImage_def)

theorem resizeImage_unchanged_witness:
  "MaxX demoImage - MinX demoImage \<le> 200 \<and> MaxY demoImage - MinY demoImage \<le> 100 \<and>
   resizeImage (demoExtern demoImage) demoImage 200 100 = demoImage"
proof -
  have w: "MaxX demoImage - MinX demoImage \<le> 200" by (simp add: demoImage_def)
  have h: "MaxY demoImage - MinY demoImage \<le> 100" by (simp add: demoImage_def)
  from resizeImage_unchanged [OF w h] w h show ?thesis by simp
qed

text \<open>
  Claim C3, at a 2148 x 1000 image with the default bounds 1920 x 1920. The target size
  should be \<open>\<lfloor>w * scale\<rfloor>\<close> and \<open>\<lfloor>h * scale\<rfloor>\<close> for \<open>scale = min (maxWidth / w) (maxHeight / h)\<close>,
  which is 1920 x 893. The program computes the quotient and the product in \<open>float64\<close>:
  the rounded quotient times 2148 lies just below 1920, and the truncation gives 1919.
\<close>

theorem scaledSize_off_by_one:
  "scaledSize indef 2148 1000 1920 1920 = (1919, 893)
   \<and> \<lfloor>(2148::rat) * min (1920 / 2148) (1920 / 1000)\<rfloor> = 1920
   \<and> \<lfloor>(1000::rat) * min (1920 / 2148) (1920 / 1000)\<rfloor> = 893"
  by code_simp

lemma resizeImage_wide:
  "resizeImage (demoExtern wideImage) wideImage 1920 1920
     = \<lparr>MinX = 0, MinY = 0, MaxX = 1919, MaxY = 893, Pix = 1\<rparr>"
  by code_simp

text \<open>
  The second half of C3 holds for dimensions below \<open>2\<^sup>3\<^sup>1\<close>: the target size fits the
  bounding box and the image, although it can miss the exact quotient by a pixel.
\<close>

lemma scaledSize_fits:
  assumes w: "0 < w" "w < 2 ^ 31" and h: "0 < h" "h < 2 ^ 31"
    and mw: "0 < mw" "mw < 2 ^ 31" and mh: "0 < mh" "mh < 2 ^ 31"
    and big: "mw < w \<or> mh < h"
  shows "case scaledSize indef w h mw mh of
           (w', h') \<Rightarrow> 0 \<le> w' \<and> w' \<le> mw \<and> w' \<le> w \<and> 0 \<le> h' \<and> h' \<le> mh \<and> h' \<le> h"
proof -
  define a where "a = roundPos (of_int mw / of_int w)"
  define b where "b = roundPos (of_int mh / of_int h)"
  define c where "c = (if a < b then a else b)"
  have qa: "(0::rat) < of_int mw / of_int w" using w mw by simp
  have qb: "(0::rat) < of_int mh / of_int h" using h mh by simp
  have ws: "fdiv (float64 mw) (float64 w) = Fin a"
    using w qa by (simp add: fdiv_def float64_exact [OF mw] float64_exact [OF w] round64_pos a_def)
  have hs: "fdiv (float64 mh) (float64 h) = Fin b"
    using h qb by (simp add: fdiv_def float64_exact [OF mh] float64_exact [OF h] round64_pos b_def)
  have sc: "(if flt (Fin a) (Fin b) then Fin a else Fin b) = Fin c" by (simp add: c_def)
  have apos: "0 < a" unfolding a_def using qa by (rule roundPos_pos)
  have bpos: "0 < b" unfolding b_def using qb by (rule roundPos_pos)
  have cpos: "0 < c" using apos bpos by (simp add: c_def)
  have ca: "c \<le> a" and cb: "c \<le> b" by (simp_all add: c_def)
  have one: "roundPos 1 = 1" using roundPos_int [of 1] by simp
  have c1: "c \<le> 1"
  proof -
    from big show ?thesis
    proof
      assume "mw < w"
      then have "(of_int mw :: rat) \<le> of_int w" by simp
      with w have "(of_int mw :: rat) / of_int w \<le> 1" by (simp add: divide_le_eq_1)
      from roundPos_mono [OF qa this] one have "a \<le> 1" by (simp add: a_def)
      with ca show ?thesis by linarith
    next
      assume "mh < h"
      then have "(of_int mh :: rat) \<le> of_int h" by simp
      with h have "(of_int mh :: rat) / of_int h \<le> 1" by (simp add: divide_le_eq_1)
      from roundPos_mono [OF qb this] one have "b \<le> 1" by (simp add: b_def)
      with cb show ?thesis by linarith
    qed
  qed
  note W = scaled_dimension [OF w mw cpos ca [unfolded a_def] c1, of indef]
  note H = scaled_dimension [OF h mh cpos cb [unfolded b_def] c1, of indef]
  have "scaledSize indef w h mw mh =
      (toInt indef (fmul (float64 w) (Fin c)), toInt indef (fmul (float64 h) (Fin c)))"
    unfolding scaledSize_def Let_def ws hs sc ..
  with W H show ?thesis by simp
qed

text \<open>The examples of the specification come out as stated.\<close>

lemma scaledSize_examples:
  "scaledSize indef 100 50 50 100 = (50, 25)"
  "scaledSize indef 100 50 200 25 = (50, 25)"
  "scaledSize indef 100 50 40 40 = (40, 20)"
  by code_simp+

text \<open>
  Claim C5. In conversion mode the output path is the output directory joined with the
  base name of the input, its extension replaced by \<open>.png\<close> for the format \<open>png\<close> and by
  \<open>.jpg\<close> for \<open>jpg\<close> and for every other format; the part that is kept is the base name
  without its extension. In preserving mode it is the output directory joined with the
  base name as it stands.
\<close>

theorem output_path_naming:
  "generateOutputPath inputPath outDir format =
     Join outDir (TrimSuffix (Base inputPath) (Ext (Base inputPath)) @
       (if format = ''png'' then ''.png'' else ''.jpg''))
   \<and> TrimSuffix (Base inputPath) (Ext (Base inputPath)) @ Ext (Base inputPath) = Base inputPath
   \<and> generateOutputPathWithSameFormat inputPath outDir = Join outDir (Base inputPath)"
  by (simp add: generateOutputPath_def generateOutputPathWithSameFormat_def TrimSuffix_Ext Let_def)

theorem output_path_naming_witness:
  "generateOutputPath ''/x/y/image.jpeg'' ''/out'' ''png'' = ''/out/image.png''
   \<and> generateOutputPathWithSameFormat ''/x/y/image.PNG'' ''/out'' = ''/out/image.PNG''"
proof -
  have a: "Join ''/out'' (TrimSuffix (Base ''/x/y/image.jpeg'') (Ext (Base ''/x/y/image.jpeg'')) @
       (if ''png'' = ''png'' then ''.png'' else ''.jpg'')) = ''/out/image.png''"
    by code_simp
  have b: "Join ''/out'' (Base ''/x/y/image.PNG'') = ''/out/image.PNG''"
    by code_simp
  from output_path_naming [of "''/x/y/image.jpeg''" "''/out''" "''png''"] a
  have "generateOutputPath ''/x/y/image.jpeg'' ''/out'' ''png'' = ''/out/image.png''"
    by (simp only:)
  moreover from output_path_naming [of "''/x/y/image.PNG''" "''/out''" "''png''"] b
  have "generateOutputPathWithSameFormat ''/x/y/image.PNG'' ''/out'' = ''/out/image.PNG''"
    by (simp only:)
  ultimately show ?thesis by (simp only: simp_thms)
qed




text \<open>
  Claim C10. With the format \<open>png\<close> the result of \<open>saveImage\<close> is the same for any two
  quality values: the quality reaches the JPEG encoder only.
\<close>

theorem saveImage_png_ignores_quality:
  "saveImage x img path ''png'' q1 = saveImage x img path ''png'' q2"
  by (simp add: saveImage_def)

section \<open>Properties of the command\<close>

text \<open>
  Claim C4. The mode is decided once for the batch. If one of the discovered files is
  classified as HEIC/HEIF, every file of the set is processed by \<open>ProcessImage\<close>; if none
  is, every file is processed by \<open>ProcessImageWithSameFormat\<close>.
\<close>

theorem batch_mode_is_global:
  "processBatch x fl files =
     (if \<exists>f \<in> set files. isHeic x f
      then map (\<lambda>f. Processed Convert f (ProcessImage x f (configOf fl))) files
      else map (\<lambda>f. Processed Preserve f (ProcessImageWithSameFormat x f (configOf fl))) files)"
proof (cases "\<exists>f \<in> set files. isHeic x f")
  case True
  then have "filter (isHeic x) files \<noteq> []" by (simp add: filter_empty_conv)
  with True show ?thesis
    by (simp add: processBatch_def separateImageFiles_filter processImagesConcurrently_def)
next
  case False
  then have "filter (isHeic x) files = []" and "filter (\<lambda>f. \<not> isHeic x f) files = files"
    by (simp_all add: filter_empty_conv)
  with False show ?thesis
    by (simp add: processBatch_def separateImageFiles_filter processImagesWithSameFormat_def)
qed

theorem batch_mode_is_global_witness:
  "processBatch (demoExtern demoImage) demoFlags [''a.jpg'', ''b.heic'', ''c.png'']
     = map (\<lambda>f. Processed Convert f (ProcessImage (demoExtern demoImage) f (configOf demoFlags)))
         [''a.jpg'', ''b.heic'', ''c.png'']
   \<and> processBatch (demoExtern demoImage) demoFlags [''a.jpg'', ''c.png'']
     = map (\<lambda>f. Processed Preserve f
           (ProcessImageWithSameFormat (demoExtern demoImage) f (configOf demoFlags)))
         [''a.jpg'', ''c.png'']"
proof -
  let ?x = "demoExtern demoImage"
  have h: "(\<exists>f \<in> set [''a.jpg'', ''b.heic'', ''c.png'']. isHeic ?x f) = True" by code_simp
  have n: "(\<exists>f \<in> set [''a.jpg'', ''c.png'']. isHeic ?x f) = False" by code_simp
  from batch_mode_is_global [of ?x demoFlags "[''a.jpg'', ''b.heic'', ''c.png'']"]
    batch_mode_is_global [of ?x demoFlags "[''a.jpg'', ''c.png'']"]
  show ?thesis by (simp only: h n if_True if_False simp_thms)
qed



text \<open>
  The theorem asks that the subdirectories of a scan that is not recursive can be listed,
  although their entries are never visited: \<open>filepath.Walk\<close> reads the names of a
  directory before it calls the walk function for it, and the walk function returns an
  error it is given before it decides to skip. A subdirectory that cannot be read ends
  the scan with its error.
\<close>

lemma getImageFiles_unreadable_subdirectory:
  "getImageFiles
     ((demoExtern demoImage)\<lparr>fileTree := (\<lambda>_.
         Dir [(''private'', Unreadable (ErrExternal ''permission denied'')), (''z.jpg'', File)])\<rparr>)
     ''root'' False
   = ([], Some (ErrExternal ''permission denied''))"
  by code_simp



text \<open>
  Claim C8. In every state that a schedule of the pool with \<open>k > 0\<close> workers reaches, at
  most \<open>k\<close> goroutines hold a slot. A goroutine whose per-file function has returned,
  with or without an error, can give its slot back. The batch function has returned only
  when every one of the \<open>n\<close> tasks is done, with the result of its per-file function,
  and no slot is held. Whatever fails, the pool is never stuck before it returns, every
  action brings it closer to the end, and some schedule takes it there.
\<close>

theorem scheduler_bounded_and_complete:
  assumes k: "0 < k" and run: "runSched n k fails as initSched = Some s"
  shows "slotsHeld s \<le> k
    \<and> (\<forall>i ok. i < length (goroutines s) \<and> goroutines s ! i = Finished ok
          \<longrightarrow> stepSched n k fails (Release i) s \<noteq> None)
    \<and> (mainPc s = Returned
          \<longrightarrow> goroutines s = map (\<lambda>i. Done (\<not> fails i)) [0..<n] \<and> semaphore s = 0)
    \<and> (mainPc s \<noteq> Returned \<longrightarrow> (\<exists>a. stepSched n k fails a s \<noteq> None))
    \<and> (\<forall>a s'. stepSched n k fails a s = Some s' \<longrightarrow> workLeft n s' < workLeft n s)
    \<and> (\<exists>bs s'. runSched n k fails bs s = Some s' \<and> mainPc s' = Returned)"
proof -
  from schedInv_run [OF schedInv_init run] have inv: "schedInv n k fails s" .
  then have sem: "semaphore s = length (filter holdsSlot (goroutines s))" and "semaphore s \<le> k"
    by (simp_all add: schedInv_def)
  then have 1: "slotsHeld s \<le> k" by (simp add: slotsHeld_def)
  have 2: "stepSched n k fails (Release i) s \<noteq> None"
    if "i < length (goroutines s) \<and> goroutines s ! i = Finished ok" for i ok
  proof -
    from that have "0 < length (filter holdsSlot (goroutines s))"
      by (intro filter_pos_nth [of i]) simp_all
    with sem that show ?thesis by simp
  qed
  from 1 2 sched_final [OF inv] sched_progress [OF inv k] sched_decreases
    sched_completes [OF k inv]
  show ?thesis by blast
qed

theorem scheduler_witness:
  "runSched 3 2 (\<lambda>i. i = 1) demoSchedule initSched = Some demoFinal
   \<and> slotsHeld demoFinal \<le> 2
   \<and> goroutines demoFinal = map (\<lambda>i. Done (\<not> (i = 1))) [0..<3]"
proof -
  have k: "0 < (2::nat)" by simp
  have run: "runSched 3 2 (\<lambda>i. i = 1) demoSchedule initSched = Some demoFinal"
    by code_simp
  have r: "mainPc demoFinal = Returned" by (simp add: demoFinal_def)
  from scheduler_bounded_and_complete [OF k run] r run show ?thesis by blast
qed

end
